theory Spec2Isabelle
  imports Main "HOL-Library.Word"
begin

section \<open>The column encodings of orso/compute/column_types.h\<close>

text \<open>
  The header defines two class templates, \<open>RLEColumn<T>\<close> and \<open>DictionaryColumn<T>\<close>.
  Each holds two private vectors, and \<open>encode\<close> is a member function that overwrites
  them. The model passes the object explicitly: \<open>encode\<close> takes the column it is called
  on and returns the column after the call.

  The element type \<open>T\<close> is a type variable; \<open>==\<close> on \<open>T\<close> is equality.
  \<open>uint32_t\<close> is a 32-bit word, whose \<open>+\<close> wraps around, and \<open>size_t\<close> is taken to be
  64 bits wide. The buffer \<open>data\<close> with its \<open>size\<close> is the list of the elements
  \<open>data[0]\<close>, ..., \<open>data[size - 1]\<close>.

  The members \<open>values_\<close>, \<open>lengths_\<close>, \<open>dictionary_\<close> and \<open>indices_\<close> are the record
  fields \<open>m_values\<close>, \<open>m_lengths\<close>, \<open>m_dictionary\<close> and \<open>m_indices\<close> (a name may not
  end in an underscore here).
\<close>

type_synonym uint32_t = "32 word"
type_synonym size_t = "64 word"

record 'a RLEColumn =
  m_values :: "'a list"
  m_lengths :: "uint32_t list"

record 'a DictionaryColumn =
  m_dictionary :: "'a list"
  m_indices :: "uint32_t list"

text \<open>The defaulted constructors leave both vectors empty.\<close>

definition RLEColumn_new :: "'a RLEColumn" where
  "RLEColumn_new = \<lparr>m_values = [], m_lengths = []\<rparr>"

definition DictionaryColumn_new :: "'a DictionaryColumn" where
  "DictionaryColumn_new = \<lparr>m_dictionary = [], m_indices = []\<rparr>"

text \<open>The one exception the header throws: \<open>std::out_of_range\<close> with its message.\<close>

datatype error = out_of_range string

subsection \<open>RLEColumn\<close>

text \<open>
  The \<open>for\<close> loop of \<open>RLEColumn<T>::encode\<close> over \<open>data[1]\<close>, ..., \<open>data[size - 1]\<close>.
  Its state is \<open>current_value\<close>, \<open>current_length\<close> and the two vectors.
\<close>

fun RLEColumn_encode_loop ::
  "'a list \<Rightarrow> 'a \<Rightarrow> uint32_t \<Rightarrow> 'a RLEColumn \<Rightarrow> 'a \<times> uint32_t \<times> 'a RLEColumn" where
  "RLEColumn_encode_loop [] current_value current_length c =
     (current_value, current_length, c)"
| "RLEColumn_encode_loop (d # ds) current_value current_length c =
     (if d = current_value
      then RLEColumn_encode_loop ds current_value (current_length + 1) c
      else RLEColumn_encode_loop ds d 1
             (c\<lparr>m_values := m_values c @ [current_value],
                m_lengths := m_lengths c @ [current_length]\<rparr>))"

text \<open>
  \<open>RLEColumn<T>::encode\<close>: the return on \<open>size == 0\<close> comes before the two \<open>clear()\<close>
  calls; after the loop the last run is pushed.
\<close>

definition RLEColumn_encode :: "'a list \<Rightarrow> 'a RLEColumn \<Rightarrow> 'a RLEColumn" where
  "RLEColumn_encode data c =
     (case data of
        [] \<Rightarrow> c
      | d0 # ds \<Rightarrow>
          (case RLEColumn_encode_loop ds d0 1 (c\<lparr>m_values := [], m_lengths := []\<rparr>) of
             (current_value, current_length, c') \<Rightarrow>
               c'\<lparr>m_values := m_values c' @ [current_value],
                  m_lengths := m_lengths c' @ [current_length]\<rparr>))"

text \<open>\<open>RLEColumn<T>::decoded_size\<close>: the lengths summed up in a \<open>size_t\<close>.\<close>

definition RLEColumn_decoded_size :: "'a RLEColumn \<Rightarrow> size_t" where
  "RLEColumn_decoded_size c = foldl (\<lambda>total len. total + ucast len) 0 (m_lengths c)"

text \<open>
  The inner loop of \<open>RLEColumn<T>::decode\<close>, with its counter \<open>j\<close> of type \<open>uint32_t\<close>:
  \<open>for (uint32_t j = 0; j < lengths_[i]; ++j) result.push_back(values_[i])\<close>.
\<close>

function RLEColumn_decode_run :: "uint32_t \<Rightarrow> uint32_t \<Rightarrow> 'a \<Rightarrow> 'a list \<Rightarrow> 'a list" where
  "RLEColumn_decode_run j len v result =
     (if j < len then RLEColumn_decode_run (j + 1) len v (result @ [v]) else result)"
  by pat_completeness auto
termination
proof (relation "measure (\<lambda>(j, len, v, result). unat len - unat j)")
  show "wf (measure (\<lambda>(j :: uint32_t, len :: uint32_t, v :: 'a, result :: 'a list). unat len - unat j))"
    by simp
next
  fix j len :: uint32_t and v :: 'a and result :: "'a list"
  assume less: "j < len"
  then have "j \<noteq> - 1"
    by auto
  then have "1 + j \<noteq> 0"
    by (simp add: add_eq_0_iff)
  then have "unat (j + 1) = Suc (unat j)"
    using unatSuc [of j] by (simp add: add.commute)
  moreover have "unat j < unat len"
    using less by (simp add: word_less_nat_alt)
  ultimately show "((j + 1, len, v, result @ [v]), (j, len, v, result))
      \<in> measure (\<lambda>(j, len, v, result). unat len - unat j)"
    by simp
qed

declare RLEColumn_decode_run.simps [simp del]

text \<open>
  The outer loop of \<open>RLEColumn<T>::decode\<close> over \<open>i < values_.size()\<close>. It reads
  \<open>lengths_[i]\<close> unchecked: where \<open>lengths_\<close> is the shorter vector the read is out of
  bounds, which has no defined behaviour, and the model returns \<open>None\<close>.
  The call \<open>result.reserve(decoded_size())\<close> sets the capacity of the result only, and
  has no counterpart here.
\<close>

fun RLEColumn_decode_loop :: "'a list \<Rightarrow> uint32_t list \<Rightarrow> 'a list \<Rightarrow> 'a list option" where
  "RLEColumn_decode_loop [] ls result = Some result"
| "RLEColumn_decode_loop (v # vs) [] result = None"
| "RLEColumn_decode_loop (v # vs) (l # ls) result =
     RLEColumn_decode_loop vs ls (RLEColumn_decode_run 0 l v result)"

definition RLEColumn_decode :: "'a RLEColumn \<Rightarrow> 'a list option" where
  "RLEColumn_decode c = RLEColumn_decode_loop (m_values c) (m_lengths c) []"

subsection \<open>DictionaryColumn\<close>

text \<open>
  \<open>std::find(unique_values.begin(), unique_values.end(), value)\<close>, as the distance of the
  iterator it returns from \<open>begin()\<close>: the position of the first element equal to the
  value, and the size of the vector (the \<open>end()\<close> iterator) when there is none.
\<close>

fun std_find :: "'a list \<Rightarrow> 'a \<Rightarrow> nat" where
  "std_find [] v = 0"
| "std_find (x # xs) v = (if x = v then 0 else Suc (std_find xs v))"

text \<open>
  The \<open>for\<close> loop of \<open>DictionaryColumn<T>::encode\<close>. Its state is the local vector
  \<open>unique_values\<close> and the column, of which it extends \<open>indices_\<close>. Both
  \<open>unique_values.size() - 1\<close> and the iterator distance are converted to \<open>uint32_t\<close> by
  \<open>push_back\<close>, which keeps the low 32 bits. The call \<open>indices_.reserve(size)\<close> sets a
  capacity only.
\<close>

fun DictionaryColumn_encode_loop ::
  "'a list \<Rightarrow> 'a list \<Rightarrow> 'a DictionaryColumn \<Rightarrow> 'a list \<times> 'a DictionaryColumn" where
  "DictionaryColumn_encode_loop [] unique_values c = (unique_values, c)"
| "DictionaryColumn_encode_loop (v # ds) unique_values c =
     (let it = std_find unique_values v in
      if it = length unique_values
      then (let unique_values' = unique_values @ [v] in
            DictionaryColumn_encode_loop ds unique_values'
              (c\<lparr>m_indices := m_indices c @ [of_nat (length unique_values' - 1)]\<rparr>))
      else DictionaryColumn_encode_loop ds unique_values
             (c\<lparr>m_indices := m_indices c @ [of_nat it]\<rparr>))"

text \<open>
  \<open>DictionaryColumn<T>::encode\<close>: again the return on \<open>size == 0\<close> comes before the
  \<open>clear()\<close> calls; after the loop \<open>unique_values\<close> is moved into \<open>dictionary_\<close>.
\<close>

definition DictionaryColumn_encode :: "'a list \<Rightarrow> 'a DictionaryColumn \<Rightarrow> 'a DictionaryColumn" where
  "DictionaryColumn_encode data c =
     (case data of
        [] \<Rightarrow> c
      | d0 # ds \<Rightarrow>
          (case DictionaryColumn_encode_loop (d0 # ds) [] (c\<lparr>m_dictionary := [], m_indices := []\<rparr>) of
             (unique_values, c') \<Rightarrow> c'\<lparr>m_dictionary := unique_values\<rparr>))"

text \<open>
  \<open>DictionaryColumn<T>::decode\<close>: each index is compared with \<open>dictionary_.size()\<close>
  before the lookup, and the throw leaves the function at once.
\<close>

fun DictionaryColumn_decode_loop :: "uint32_t list \<Rightarrow> 'a list \<Rightarrow> 'a list \<Rightarrow> error + 'a list" where
  "DictionaryColumn_decode_loop [] dict result = Inr result"
| "DictionaryColumn_decode_loop (idx # rest) dict result =
     (if unat idx \<ge> length dict
      then Inl (out_of_range ''Dictionary index out of range'')
      else DictionaryColumn_decode_loop rest dict (result @ [dict ! unat idx]))"

definition DictionaryColumn_decode :: "'a DictionaryColumn \<Rightarrow> error + 'a list" where
  "DictionaryColumn_decode c = DictionaryColumn_decode_loop (m_indices c) (m_dictionary c) []"

subsection \<open>Notation for the proofs\<close>

text \<open>
  The sequence a list of runs stands for, and the distinct elements of a list in the
  order of their first occurrence (\<open>remdups\<close> keeps the last occurrence of each
  element, so the list is reversed around it).
\<close>

abbreviation expand_runs :: "'a list \<Rightarrow> uint32_t list \<Rightarrow> 'a list" where
  "expand_runs vs ls \<equiv> concat (map (\<lambda>(v, l). replicate (unat l) v) (zip vs ls))"

abbreviation first_seen :: "'a list \<Rightarrow> 'a list" where
  "first_seen S \<equiv> rev (remdups (rev S))"

section \<open>Properties of the RLE codec\<close>

subsection \<open>Decoding\<close>

text \<open>
  The inner loop appends as many copies of the value as the stored length says, and the
  outer loop does so run by run, provided the two vectors are equally long.
\<close>

lemma RLE_decode_run_replicate:
  "unat j \<le> unat len \<Longrightarrow>
     RLEColumn_decode_run j len v result = result @ replicate (unat len - unat j) v"
proof (induction j len v result rule: RLEColumn_decode_run.induct)
  case (1 j len v result)
  show ?case
  proof (cases "j < len")
    case True
    then have "j \<noteq> - 1"
      by auto
    then have "1 + j \<noteq> 0"
      by (simp add: add_eq_0_iff)
    then have suc: "unat (j + 1) = Suc (unat j)"
      using unatSuc [of j] by (simp add: add.commute)
    have lt: "unat j < unat len"
      using True by (simp add: word_less_nat_alt)
    have "RLEColumn_decode_run j len v result = RLEColumn_decode_run (j + 1) len v (result @ [v])"
      using True by (subst RLEColumn_decode_run.simps) simp
    also have "\<dots> = (result @ [v]) @ replicate (unat len - unat (j + 1)) v"
      using "1.IH" [OF True] suc lt by simp
    also have "\<dots> = result @ replicate (unat len - unat j) v"
      using suc lt by (simp add: replicate_app_Cons_same Suc_diff_Suc flip: replicate_Suc)
    finally show ?thesis .
  next
    case False
    then have "unat len - unat j = 0"
      by (simp add: word_less_nat_alt)
    moreover have "RLEColumn_decode_run j len v result = result"
      using False by (subst RLEColumn_decode_run.simps) simp
    ultimately show ?thesis
      by simp
  qed
qed

lemma RLE_decode_run_from_0:
  "RLEColumn_decode_run 0 len v result = result @ replicate (unat len) v"
  using RLE_decode_run_replicate [of 0 len v result] by simp

lemma RLE_decode_loop_expand:
  "length vs = length ls \<Longrightarrow>
     RLEColumn_decode_loop vs ls result = Some (result @ expand_runs vs ls)"
proof (induction vs ls result rule: RLEColumn_decode_loop.induct)
  case (1 ls result)
  then show ?case by simp
next
  case (2 v vs result)
  then show ?case by simp
next
  case (3 v vs l ls result)
  then show ?case by (simp add: RLE_decode_run_from_0)
qed

lemma expand_runs_snoc:
  "length vs = length ls \<Longrightarrow>
     expand_runs (vs @ [v]) (ls @ [l]) = expand_runs vs ls @ replicate (unat l) v"
  by simp

subsection \<open>Encoding\<close>

text \<open>
  A list with no \<open>n\<close> equal elements in a row: its leading run is shorter than \<open>n\<close>, and
  its suffixes have the property too.
\<close>

lemma no_run_head_short:
  assumes "\<forall>as x bs. replicate k cur @ ds \<noteq> as @ replicate n x @ bs"
  shows "k < n"
proof (rule ccontr)
  assume "\<not> k < n"
  then have "k = n + (k - n)"
    by simp
  then have "replicate k cur = replicate n cur @ replicate (k - n) cur"
    by (metis replicate_add)
  then have "replicate k cur @ ds = [] @ replicate n cur @ (replicate (k - n) cur @ ds)"
    by simp
  with assms show False
    by blast
qed

lemma no_run_suffix:
  assumes "\<forall>as x bs. ps @ ds \<noteq> as @ replicate n x @ bs"
  shows "\<forall>as x bs. ds \<noteq> as @ replicate n x @ bs"
proof (intro allI notI)
  fix as x bs
  assume "ds = as @ replicate n x @ bs"
  then have "ps @ ds = (ps @ as) @ replicate n x @ bs"
    by simp
  with assms show False
    by blast
qed

text \<open>
  The invariant of the encoding loop. With \<open>k\<close> the true length of the open run and
  \<open>ds\<close> the elements still to be read, the closed runs followed by the open run expand
  to the input read so far; \<open>current_length\<close> is \<open>k\<close> as long as no run reaches
  \<open>2 ^ 32\<close>.
\<close>

lemma unat_of_nat_32: "k < 2 ^ 32 \<Longrightarrow> unat (of_nat k :: uint32_t) = k"
  by (simp add: unat_of_nat)

lemma RLE_encode_loop_runs:
  assumes "\<forall>as x bs. replicate k cur @ ds \<noteq> as @ replicate (2 ^ 32) x @ bs"
    and "0 < k"
    and "length (m_values c) = length (m_lengths c)"
  shows "\<exists>cur' k' c'.
           RLEColumn_encode_loop ds cur (of_nat k) c = (cur', of_nat k', c') \<and>
           0 < k' \<and> k' < 2 ^ 32 \<and>
           length (m_values c') = length (m_lengths c') \<and>
           expand_runs (m_values c') (m_lengths c') @ replicate k' cur' =
             expand_runs (m_values c) (m_lengths c) @ replicate k cur @ ds \<and>
           ((\<forall>l \<in> set (m_lengths c). l \<noteq> 0) \<longrightarrow> (\<forall>l \<in> set (m_lengths c'). l \<noteq> 0))"
  using assms
proof (induction ds arbitrary: k cur c)
  case Nil
  have "k < 2 ^ 32"
    using no_run_head_short [OF Nil.prems(1)] .
  with Nil.prems show ?case
    by auto
next
  case (Cons d ds)
  have k: "k < 2 ^ 32"
    using no_run_head_short [OF Cons.prems(1)] .
  show ?case
  proof (cases "d = cur")
    case True
    have eq: "replicate (Suc k) cur @ ds = replicate k cur @ d # ds"
      using True by (simp add: replicate_app_Cons_same)
    have "\<forall>as x bs. replicate (Suc k) cur @ ds \<noteq> as @ replicate (2 ^ 32) x @ bs"
      using Cons.prems(1) unfolding eq .
    from Cons.IH [OF this _ Cons.prems(3)]
    obtain cur' k' c' where
      "RLEColumn_encode_loop ds cur (of_nat (Suc k)) c = (cur', of_nat k', c')"
      "0 < k'" "k' < 2 ^ 32" "length (m_values c') = length (m_lengths c')"
      "expand_runs (m_values c') (m_lengths c') @ replicate k' cur' =
         expand_runs (m_values c) (m_lengths c) @ replicate (Suc k) cur @ ds"
      "(\<forall>l \<in> set (m_lengths c). l \<noteq> 0) \<longrightarrow> (\<forall>l \<in> set (m_lengths c'). l \<noteq> 0)"
      by auto
    then show ?thesis
      using True eq by (intro exI [of _ cur'] exI [of _ k'] exI [of _ c']) (simp add: add.commute)
  next
    case False
    let ?c = "c\<lparr>m_values := m_values c @ [cur], m_lengths := m_lengths c @ [of_nat k]\<rparr>"
    have "\<forall>as x bs. d # ds \<noteq> as @ replicate (2 ^ 32) x @ bs"
      using no_run_suffix [OF Cons.prems(1)] .
    then have "\<forall>as x bs. replicate 1 d @ ds \<noteq> as @ replicate (2 ^ 32) x @ bs"
      by simp
    from Cons.IH [OF this, of ?c] Cons.prems(3)
    obtain cur' k' c' where
      "RLEColumn_encode_loop ds d (of_nat 1) ?c = (cur', of_nat k', c')"
      "0 < k'" "k' < 2 ^ 32" "length (m_values c') = length (m_lengths c')"
      "expand_runs (m_values c') (m_lengths c') @ replicate k' cur' =
         expand_runs (m_values ?c) (m_lengths ?c) @ replicate 1 d @ ds"
      "(\<forall>l \<in> set (m_lengths ?c). l \<noteq> 0) \<longrightarrow> (\<forall>l \<in> set (m_lengths c'). l \<noteq> 0)"
      by auto
    moreover have "(of_nat k :: uint32_t) \<noteq> 0"
      using unat_of_nat_32 [OF k] Cons.prems(2) by auto
    ultimately show ?thesis
      using False Cons.prems(3) unat_of_nat_32 [OF k]
      by (intro exI [of _ cur'] exI [of _ k'] exI [of _ c']) simp
  qed
qed

text \<open>The values pushed so far, followed by the open run's value, never repeat side by side.\<close>

lemma RLE_encode_loop_distinct_adj:
  "distinct_adj (m_values c @ [cur]) \<Longrightarrow>
   RLEColumn_encode_loop ds cur len c = (cur', len', c') \<Longrightarrow>
   distinct_adj (m_values c' @ [cur'])"
proof (induction ds arbitrary: cur len c)
  case Nil
  then show ?case by simp
next
  case (Cons d ds)
  show ?case
  proof (cases "d = cur")
    case True
    with Cons.prems Cons.IH [of c cur "len + 1"] show ?thesis
      by simp
  next
    case False
    let ?c = "c\<lparr>m_values := m_values c @ [cur], m_lengths := m_lengths c @ [len]\<rparr>"
    have "distinct_adj (m_values ?c @ [d])"
      using Cons.prems(1) False by (simp add: distinct_adj_append_iff)
    moreover have "RLEColumn_encode_loop ds d 1 ?c = (cur', len', c')"
      using Cons.prems(2) False by simp
    ultimately show ?thesis
      by (rule Cons.IH)
  qed
qed

text \<open>On a buffer of equal elements the loop only counts, modulo \<open>2 ^ 32\<close>.\<close>

lemma RLE_encode_loop_replicate:
  "RLEColumn_encode_loop (replicate n cur) cur len c = (cur, len + of_nat n, c)"
  by (induction n arbitrary: len) (simp_all add: add.assoc add.commute)

lemma RLE_encode_replicate:
  "RLEColumn_encode (replicate (Suc n) x) c =
     c\<lparr>m_values := [x], m_lengths := [of_nat (Suc n)]\<rparr>"
  by (simp add: RLEColumn_encode_def RLE_encode_loop_replicate add.commute)

lemma RLE_encode_Cons_runs:
  assumes "\<forall>as x bs. d # ds \<noteq> as @ replicate (2 ^ 32) x @ bs"
  shows "\<exists>cur' k' c'.
           RLEColumn_encode (d # ds) c =
             c'\<lparr>m_values := m_values c' @ [cur'], m_lengths := m_lengths c' @ [of_nat k']\<rparr> \<and>
           0 < k' \<and> k' < 2 ^ 32 \<and>
           length (m_values c') = length (m_lengths c') \<and>
           expand_runs (m_values c') (m_lengths c') @ replicate k' cur' = d # ds \<and>
           (\<forall>l \<in> set (m_lengths c'). l \<noteq> 0)"
proof -
  let ?c = "c\<lparr>m_values := [], m_lengths := []\<rparr>"
  have "\<forall>as x bs. replicate 1 d @ ds \<noteq> as @ replicate (2 ^ 32) x @ bs"
    using assms by simp
  from RLE_encode_loop_runs [OF this, of ?c]
  obtain cur' k' c' where
    "RLEColumn_encode_loop ds d 1 ?c = (cur', of_nat k', c')"
    "0 < k'" "k' < 2 ^ 32" "length (m_values c') = length (m_lengths c')"
    "expand_runs (m_values c') (m_lengths c') @ replicate k' cur' = d # ds"
    "\<forall>l \<in> set (m_lengths c'). l \<noteq> 0"
    by auto
  then show ?thesis
    by (intro exI [of _ cur'] exI [of _ k'] exI [of _ c']) (simp add: RLEColumn_encode_def)
qed

lemma decoded_size_sum:
  "foldl (\<lambda>total len. total + ucast len) (t :: size_t) (ls :: uint32_t list) =
     t + of_nat (sum_list (map unat ls))"
  by (induction ls arbitrary: t) (simp_all add: add.assoc)

lemma length_expand_runs:
  "length vs = length ls \<Longrightarrow> length (expand_runs vs ls) = sum_list (map unat ls)"
proof (induction vs arbitrary: ls)
  case Nil
  then show ?case by simp
next
  case (Cons v vs)
  then show ?case by (cases ls) simp_all
qed

lemma short_list_no_run:
  "length S < n \<Longrightarrow> \<forall>as x bs. S \<noteq> as @ replicate n x @ bs"
proof (intro allI notI)
  fix as x bs
  assume "length S < n" and "S = as @ replicate n x @ bs"
  then have "length (as @ replicate n x @ bs) < n"
    by simp
  then show False
    by simp
qed

subsection \<open>Stored lengths that are zero\<close>

text \<open>
  A counter that has wrapped around to 0 has counted a positive multiple of \<open>2 ^ 32\<close>
  elements. A run is closed when the next element differs or the input ends, so a stored
  length is 0 only for a maximal run of such a length. In the invariant \<open>as\<close> is the
  input before the open run, \<open>k\<close> the true length of the open run and \<open>ds\<close> the input
  still to be read.
\<close>

lemma of_nat_32_zero_multiple:
  assumes "(of_nat k :: uint32_t) = 0" and "0 < k"
  shows "\<exists>m. 0 < m \<and> k = m * 2 ^ 32"
proof -
  have "unat (of_nat k :: uint32_t) = 0"
    using assms(1) by simp
  then have "k mod 2 ^ 32 = 0"
    by (simp add: unat_of_nat)
  then have "2 ^ 32 dvd k"
    by (simp add: dvd_eq_mod_eq_0)
  then obtain m where m: "k = m * 2 ^ 32"
    by (auto simp: dvd_def mult.commute)
  with assms(2) have "0 < m"
    by (cases m) simp_all
  with m show ?thesis
    by blast
qed

lemma RLE_closed_run_nonzero:
  assumes H: "\<forall>as' x bs m. 0 < m \<longrightarrow> as @ replicate k cur @ ds = as' @ replicate (m * 2 ^ 32) x @ bs \<longrightarrow>
      (as' \<noteq> [] \<and> last as' = x) \<or> (bs \<noteq> [] \<and> hd bs = x)"
    and k: "0 < k"
    and left: "as = [] \<or> last as \<noteq> cur"
    and right: "ds = [] \<or> hd ds \<noteq> cur"
  shows "(of_nat k :: uint32_t) \<noteq> 0"
proof
  assume "(of_nat k :: uint32_t) = 0"
  then obtain m where m: "0 < m" "k = m * 2 ^ 32"
    using of_nat_32_zero_multiple k by blast
  have "as @ replicate k cur @ ds = as @ replicate (m * 2 ^ 32) cur @ ds"
    using m(2) by simp
  with H m(1) have "(as \<noteq> [] \<and> last as = cur) \<or> (ds \<noteq> [] \<and> hd ds = cur)"
    by blast
  with left right show False
    by blast
qed

lemma RLE_encode_loop_nonzero:
  assumes "\<forall>as' x bs m. 0 < m \<longrightarrow> as @ replicate k cur @ ds = as' @ replicate (m * 2 ^ 32) x @ bs \<longrightarrow>
      (as' \<noteq> [] \<and> last as' = x) \<or> (bs \<noteq> [] \<and> hd bs = x)"
    and "0 < k"
    and "as = [] \<or> last as \<noteq> cur"
    and "\<forall>l \<in> set (m_lengths c). l \<noteq> 0"
    and "RLEColumn_encode_loop ds cur (of_nat k) c = (cur', len', c')"
  shows "len' \<noteq> 0 \<and> (\<forall>l \<in> set (m_lengths c'). l \<noteq> 0)"
  using assms
proof (induction ds arbitrary: as k cur c)
  case Nil
  have "(of_nat k :: uint32_t) \<noteq> 0"
    using Nil.prems(1) Nil.prems(2) Nil.prems(3) by (rule RLE_closed_run_nonzero) simp
  with Nil.prems(4) Nil.prems(5) show ?case
    by auto
next
  case (Cons d ds)
  show ?case
  proof (cases "d = cur")
    case True
    have eq: "as @ replicate (Suc k) cur @ ds = as @ replicate k cur @ d # ds"
      using True by (simp add: replicate_app_Cons_same)
    have H: "\<forall>as' x bs m. 0 < m \<longrightarrow>
        as @ replicate (Suc k) cur @ ds = as' @ replicate (m * 2 ^ 32) x @ bs \<longrightarrow>
        (as' \<noteq> [] \<and> last as' = x) \<or> (bs \<noteq> [] \<and> hd bs = x)"
      using Cons.prems(1) unfolding eq .
    have "RLEColumn_encode_loop ds cur (of_nat (Suc k)) c = (cur', len', c')"
      using Cons.prems(5) True by (simp add: add.commute)
    with Cons.IH [OF H _ Cons.prems(3) Cons.prems(4)] show ?thesis
      by simp
  next
    case False
    let ?c = "c\<lparr>m_values := m_values c @ [cur], m_lengths := m_lengths c @ [of_nat k]\<rparr>"
    have closed: "(of_nat k :: uint32_t) \<noteq> 0"
      using Cons.prems(1) Cons.prems(2) Cons.prems(3)
      by (rule RLE_closed_run_nonzero) (simp add: False)
    have eq: "(as @ replicate k cur) @ replicate 1 d @ ds = as @ replicate k cur @ d # ds"
      by simp
    have H: "\<forall>as' x bs m. 0 < m \<longrightarrow>
        (as @ replicate k cur) @ replicate 1 d @ ds = as' @ replicate (m * 2 ^ 32) x @ bs \<longrightarrow>
        (as' \<noteq> [] \<and> last as' = x) \<or> (bs \<noteq> [] \<and> hd bs = x)"
      using Cons.prems(1) unfolding eq .
    have left: "as @ replicate k cur = [] \<or> last (as @ replicate k cur) \<noteq> d"
      using Cons.prems(2) False by simp
    have pos: "\<forall>l \<in> set (m_lengths ?c). l \<noteq> 0"
      using Cons.prems(4) closed by simp
    have "RLEColumn_encode_loop ds d (of_nat 1) ?c = (cur', len', c')"
      using Cons.prems(5) False by simp
    with Cons.IH [OF H _ left pos] show ?thesis
      by simp
  qed
qed

text \<open>
  A run longer than \<open>2 ^ 32\<close> whose length is no multiple of \<open>2 ^ 32\<close>: the buffer of
  \<open>2 ^ 32 + 2\<close> sevens and one nine is stored with the lengths 2 and 1, and none of
  its blocks of \<open>2 ^ 32\<close> sevens is a maximal run.
\<close>

lemma RLE_encode_loop_replicate_append:
  "RLEColumn_encode_loop (replicate n cur @ ds) cur len c =
     RLEColumn_encode_loop ds cur (len + of_nat n) c"
  by (induction n arbitrary: len) (simp_all add: ac_simps)

lemma RLE_encode_two_runs:
  assumes "x \<noteq> y"
  shows "RLEColumn_encode (replicate (Suc n) x @ [y]) c =
     c\<lparr>m_values := [x, y], m_lengths := [of_nat (Suc n), 1]\<rparr>"
  using assms
  by (simp add: RLEColumn_encode_def RLE_encode_loop_replicate_append add.commute)

lemma RLE_encode_long_run_lengths:
  "m_lengths (RLEColumn_encode (replicate (2 ^ 32 + 2) (7 :: 8 word) @ [9]) RLEColumn_new) = [2, 1]"
proof -
  have "(2::nat) ^ 32 + 2 = Suc (2 ^ 32 + 1)"
    by simp
  then have "RLEColumn_encode (replicate (2 ^ 32 + 2) (7 :: 8 word) @ [9]) RLEColumn_new =
      RLEColumn_new\<lparr>m_values := [7, 9], m_lengths := [of_nat (2 ^ 32 + 2), 1]\<rparr>"
    using RLE_encode_two_runs [of "7 :: 8 word" 9 "2 ^ 32 + 1" RLEColumn_new] by simp
  moreover have "(of_nat (2 ^ 32 + 2) :: uint32_t) = 2"
    by simp
  ultimately show ?thesis
    by simp
qed

lemma long_run_not_wrapped:
  fixes x y :: 'a and N n :: nat
  assumes xy: "x \<noteq> y" and Nn: "N < n" and n2: "n < 2 * N"
  shows "\<forall>as z bs m. 0 < m \<longrightarrow> replicate n x @ [y] = as @ replicate (m * N) z @ bs \<longrightarrow>
      (as \<noteq> [] \<and> last as = z) \<or> (bs \<noteq> [] \<and> hd bs = z)"
proof (intro allI impI)
  fix as bs :: "'a list" and z :: 'a and m :: nat
  assume m: "0 < m" and eq: "replicate n x @ [y] = as @ replicate (m * N) z @ bs"
  define L where "L = replicate n x @ [y]"
  define M where "M = m * N"
  have N2: "2 \<le> N"
    using Nn n2 by linarith
  have M: "N \<le> M"
    using m by (simp add: M_def)
  have L_eq: "L = as @ replicate M z @ bs"
    using eq by (simp add: L_def M_def)
  have "length L = Suc n"
    by (simp add: L_def)
  then have len: "length as + M + length bs = Suc n"
    unfolding L_eq by simp
  have Lx: "L ! i = x" if "i < n" for i
    using that by (simp add: L_def nth_append)
  have Ly: "L ! n = y"
    by (simp add: L_def nth_append)
  have blk: "L ! (length as + i) = z" if "i < M" for i
  proof -
    have "L ! (length as + i) = (replicate M z @ bs) ! i"
      unfolding L_eq by (rule nth_append_length_plus)
    also have "\<dots> = replicate M z ! i"
      using that by (simp add: nth_append)
    also have "\<dots> = z"
      using that by (rule nth_replicate)
    finally show ?thesis .
  qed
  have "0 < M"
    using M N2 by linarith
  then have z: "L ! length as = z"
    using blk [of 0] by simp
  have la: "length as < n"
    using len M N2 by linarith
  then have zx: "z = x"
    using z Lx [of "length as"] by simp
  show "(as \<noteq> [] \<and> last as = z) \<or> (bs \<noteq> [] \<and> hd bs = z)"
  proof (cases "as = []")
    case False
    then have "last as = L ! (length as - 1)"
      unfolding L_eq by (simp add: nth_append last_conv_nth)
    also have "\<dots> = x"
      using la by (intro Lx) simp
    finally show ?thesis
      using False zx by simp
  next
    case True
    have "M \<noteq> Suc n"
    proof
      assume "M = Suc n"
      then have "L ! n = z"
        using blk [of n] True by simp
      with Ly zx xy show False
        by simp
    qed
    then have "M \<le> n"
      using len by linarith
    then have "m * N < 2 * N"
      using n2 unfolding M_def by linarith
    then have "0 < N \<and> m < 2"
      by (simp only: mult_less_cancel2)
    then have "m < 2" ..
    then have "M = N"
      using m by (simp add: M_def)
    then have Mn: "M < n"
      using Nn by simp
    then have bs: "bs \<noteq> []"
      using len True by auto
    then have "hd bs = L ! M"
      unfolding L_eq using True by (simp add: nth_append hd_conv_nth)
    also have "\<dots> = x"
      using Mn by (rule Lx)
    finally show ?thesis
      using bs zx by simp
  qed
qed

section \<open>Properties of the dictionary codec\<close>

subsection \<open>The search\<close>

lemma std_find_le: "std_find xs v \<le> length xs"
  by (induction xs) simp_all

lemma std_find_end_iff: "std_find xs v = length xs \<longleftrightarrow> v \<notin> set xs"
proof (induction xs)
  case Nil
  then show ?case by simp
next
  case (Cons x xs)
  then show ?case by auto
qed

lemma std_find_less: "v \<in> set xs \<Longrightarrow> std_find xs v < length xs"
  using std_find_le [of xs v] std_find_end_iff [of xs v] by simp

lemma nth_std_find: "v \<in> set xs \<Longrightarrow> xs ! std_find xs v = v"
  by (induction xs) auto

lemma std_find_append_in: "v \<in> set xs \<Longrightarrow> std_find (xs @ ys) v = std_find xs v"
  by (induction xs) auto

lemma std_find_append_notin:
  "v \<notin> set xs \<Longrightarrow> std_find (xs @ ys) v = length xs + std_find ys v"
  by (induction xs) auto

lemma std_find_nth_distinct:
  "distinct xs \<Longrightarrow> i < length xs \<Longrightarrow> std_find xs (xs ! i) = i"
proof (induction xs arbitrary: i)
  case Nil
  then show ?case by simp
next
  case (Cons x xs)
  then show ?case by (cases i) auto
qed

subsection \<open>Encoding and decoding\<close>

text \<open>
  The loop is a left fold over the input. After any prefix \<open>S\<close>, \<open>unique_values\<close> holds
  the distinct values of \<open>S\<close> in the order of their first occurrence, and the index
  stored for an element is its position there, cut to 32 bits.
\<close>

lemma first_seen_snoc:
  "first_seen (S @ [x]) = (if x \<in> set S then first_seen S else first_seen S @ [x])"
  by simp

lemma Dict_encode_loop_append:
  "DictionaryColumn_encode_loop (xs @ ys) u c =
     (case DictionaryColumn_encode_loop xs u c of
        (u', c') \<Rightarrow> DictionaryColumn_encode_loop ys u' c')"
  by (induction xs arbitrary: u c) (simp_all add: Let_def)

lemma Dict_encode_loop_first_seen:
  "m_indices c = [] \<Longrightarrow>
     DictionaryColumn_encode_loop S [] c =
       (first_seen S, c\<lparr>m_indices := map (\<lambda>x. of_nat (std_find (first_seen S) x)) S\<rparr>)"
proof (induction S rule: rev_induct)
  case Nil
  then show ?case by simp
next
  case (snoc x S)
  let ?u = "first_seen S"
  let ?c = "c\<lparr>m_indices := map (\<lambda>x. of_nat (std_find ?u x)) S\<rparr>"
  have loop: "DictionaryColumn_encode_loop (S @ [x]) [] c = DictionaryColumn_encode_loop [x] ?u ?c"
    using snoc by (simp add: Dict_encode_loop_append)
  show ?case
  proof (cases "x \<in> set S")
    case True
    then have "std_find ?u x \<noteq> length ?u"
      using std_find_end_iff [of ?u x] by simp
    then show ?thesis
      using True by (simp add: loop)
  next
    case False
    then have "std_find ?u x = length ?u"
      using std_find_end_iff [of ?u x] by simp
    moreover have "map (\<lambda>y. of_nat (std_find (?u @ [x]) y) :: uint32_t) S =
        map (\<lambda>y. of_nat (std_find ?u y)) S"
      by (simp add: std_find_append_in)
    moreover have "std_find (?u @ [x]) x = length ?u"
      using False by (simp add: std_find_append_notin)
    ultimately show ?thesis
      using False by (simp add: loop)
  qed
qed

lemma Dict_encode_first_seen:
  assumes "S = [] \<Longrightarrow> c = DictionaryColumn_new"
  shows "DictionaryColumn_encode S c =
     c\<lparr>m_dictionary := first_seen S,
       m_indices := map (\<lambda>x. of_nat (std_find (first_seen S) x)) S\<rparr>"
proof (cases S)
  case Nil
  with assms show ?thesis
    by (simp add: DictionaryColumn_encode_def DictionaryColumn_new_def)
next
  case (Cons d ds)
  have "DictionaryColumn_encode_loop S [] (c\<lparr>m_dictionary := [], m_indices := []\<rparr>) =
      (first_seen S, c\<lparr>m_dictionary := [], m_indices := []\<rparr>
         \<lparr>m_indices := map (\<lambda>x. of_nat (std_find (first_seen S) x)) S\<rparr>)"
    by (rule Dict_encode_loop_first_seen) simp
  then show ?thesis
    unfolding Cons by (simp add: DictionaryColumn_encode_def)
qed

lemma Dict_decode_loop_valid:
  "\<forall>i \<in> set idx. unat i < length dict \<Longrightarrow>
     DictionaryColumn_decode_loop idx dict result = Inr (result @ map (\<lambda>i. dict ! unat i) idx)"
  by (induction idx arbitrary: result) simp_all

lemma Dict_decode_loop_invalid:
  "\<exists>i \<in> set idx. length dict \<le> unat i \<Longrightarrow>
     DictionaryColumn_decode_loop idx dict result = Inl (out_of_range ''Dictionary index out of range'')"
  by (induction idx arbitrary: result) auto

lemma unat_of_nat_32_le: "unat (of_nat n :: uint32_t) \<le> n"
  by (simp add: unat_of_nat)

lemma Dict_decode_encode:
  assumes "S = [] \<Longrightarrow> c = DictionaryColumn_new"
  shows "DictionaryColumn_decode (DictionaryColumn_encode S c) =
     Inr (map (\<lambda>x. first_seen S ! unat (of_nat (std_find (first_seen S) x) :: uint32_t)) S)"
proof -
  have "unat (of_nat (std_find (first_seen S) x) :: uint32_t) < length (first_seen S)"
    if "x \<in> set S" for x
    using that std_find_less [of x "first_seen S"]
      unat_of_nat_32_le [of "std_find (first_seen S) x"] by simp
  then show ?thesis
    by (simp add: Dict_encode_first_seen [OF assms] DictionaryColumn_decode_def Dict_decode_loop_valid comp_def)
qed

text \<open>An entry that comes earlier in the dictionary occurs first at an earlier position.\<close>

lemma first_seen_order:
  "\<forall>i j. i < j \<and> j < length (first_seen S) \<longrightarrow>
     std_find S (first_seen S ! i) < std_find S (first_seen S ! j)"
proof (induction S rule: rev_induct)
  case Nil
  then show ?case by simp
next
  case (snoc x S)
  let ?u = "first_seen S"
  have old: "std_find (S @ [x]) (?u ! i) = std_find S (?u ! i)" if "i < length ?u" for i
  proof -
    have "?u ! i \<in> set ?u"
      using that by (rule nth_mem)
    then have "?u ! i \<in> set S"
      by simp
    then show ?thesis
      by (rule std_find_append_in)
  qed
  show ?case
  proof (cases "x \<in> set S")
    case True
    then have u': "first_seen (S @ [x]) = ?u"
      by simp
    show ?thesis
    proof (intro allI impI)
      fix i j
      assume ij: "i < j \<and> j < length (first_seen (S @ [x]))"
      then have "i < length ?u" and "j < length ?u"
        unfolding u' by simp_all
      then have "std_find (S @ [x]) (?u ! i) = std_find S (?u ! i)"
        and "std_find (S @ [x]) (?u ! j) = std_find S (?u ! j)"
        by (simp_all only: old)
      moreover have "std_find S (?u ! i) < std_find S (?u ! j)"
        using snoc.IH ij unfolding u' by blast
      ultimately show "std_find (S @ [x]) (first_seen (S @ [x]) ! i) <
          std_find (S @ [x]) (first_seen (S @ [x]) ! j)"
        unfolding u' by simp
    qed
  next
    case False
    then have u': "first_seen (S @ [x]) = ?u @ [x]"
      by simp
    have new: "std_find (S @ [x]) x = length S"
      using False by (simp add: std_find_append_notin)
    show ?thesis
    proof (intro allI impI)
      fix i j
      assume ij: "i < j \<and> j < length (first_seen (S @ [x]))"
      then have i: "i < length ?u"
        unfolding u' by simp
      then have "?u ! i \<in> set ?u"
        by (rule nth_mem)
      then have mem: "?u ! i \<in> set S"
        by simp
      have fi: "std_find (S @ [x]) (first_seen (S @ [x]) ! i) = std_find S (?u ! i)"
        unfolding u' using i old [OF i] by (simp add: nth_append)
      show "std_find (S @ [x]) (first_seen (S @ [x]) ! i) <
          std_find (S @ [x]) (first_seen (S @ [x]) ! j)"
      proof (cases "j < length ?u")
        case True
        then have "std_find (S @ [x]) (first_seen (S @ [x]) ! j) = std_find S (?u ! j)"
          unfolding u' using old [OF True] by (simp add: nth_append)
        then show ?thesis
          using fi snoc.IH ij True by simp
      next
        case False
        then have "j = length ?u"
          using ij unfolding u' by simp
        moreover have "(?u @ [x]) ! length ?u = x"
          by (rule nth_append_length)
        ultimately have "std_find (S @ [x]) (first_seen (S @ [x]) ! j) = length S"
          unfolding u' using new by (simp only:)
        then show ?thesis
          using fi std_find_less [OF mem] by simp
      qed
    qed
  qed
qed

section \<open>The claims\<close>

text \<open>
  \<open>encode\<close> is a member function, so every statement below names the column it is called
  on. That column is any column at all when the input is non-empty (the two \<open>clear()\<close>
  calls then discard what it held), and the newly constructed column when the input is
  empty: this is the hypothesis \<open>S = [] \<Longrightarrow> c = RLEColumn_new\<close>.

  A run counter and an index are \<open>uint32_t\<close>. The hypothesis
  \<open>\<forall>as x bs. S \<noteq> as @ replicate (2 ^ 32) x @ bs\<close> says that \<open>S\<close> has no \<open>2 ^ 32\<close>
  equal elements in a row, so that no run counter wraps around.
\<close>

subsection \<open>C1\<close>

text \<open>
  C1, RLE round trip. For every finite sequence \<open>S\<close> (the empty one included) in which no
  value is repeated \<open>2 ^ 32\<close> or more times in a row, decoding the column that
  \<open>RLEColumn::encode(S)\<close> produces returns normally, and what it returns is exactly \<open>S\<close>.
\<close>

theorem RLE_round_trip_short_runs:
  assumes "\<forall>as x bs. S \<noteq> as @ replicate (2 ^ 32) x @ bs"
    and "S = [] \<Longrightarrow> c = RLEColumn_new"
  shows "RLEColumn_decode (RLEColumn_encode S c) = Some S"
proof (cases S)
  case Nil
  with assms(2) show ?thesis
    by (simp add: RLEColumn_encode_def RLEColumn_decode_def RLEColumn_new_def)
next
  case (Cons d ds)
  from RLE_encode_Cons_runs [OF assms(1) [unfolded Cons], of c]
  obtain cur' k' c' where
    enc: "RLEColumn_encode (d # ds) c =
       c'\<lparr>m_values := m_values c' @ [cur'], m_lengths := m_lengths c' @ [of_nat k']\<rparr>"
    and k': "k' < 2 ^ 32"
    and len: "length (m_values c') = length (m_lengths c')"
    and ex: "expand_runs (m_values c') (m_lengths c') @ replicate k' cur' = d # ds"
    by auto
  have "RLEColumn_decode (RLEColumn_encode (d # ds) c) =
      Some (expand_runs (m_values c' @ [cur']) (m_lengths c' @ [of_nat k']))"
    using len by (simp add: enc RLEColumn_decode_def RLE_decode_loop_expand)
  also have "\<dots> = Some (d # ds)"
    using len ex unat_of_nat_32 [OF k'] by simp
  finally show ?thesis
    using Cons by simp
qed

text \<open>Scenario 1 of the specification: \<open>[5, 5, 5, 2, 2, 9]\<close> is restored.\<close>

theorem RLE_round_trip_witness:
  "RLEColumn_decode (RLEColumn_encode [5, 5, 5, 2, 2, 9 :: 32 word] RLEColumn_new) =
     Some [5, 5, 5, 2, 2, 9]"
proof -
  have "\<forall>as x bs. [5, 5, 5, 2, 2, 9 :: 32 word] \<noteq> as @ replicate (2 ^ 32) x @ bs"
    by (rule short_list_no_run) simp
  then show ?thesis
    by (rule RLE_round_trip_short_runs) simp
qed

text \<open>
  Without the bound the round trip fails. A buffer of \<open>2 ^ 32\<close> equal bytes is one run,
  whose counter has wrapped around to 0 when it is stored, and decodes to the empty
  sequence.
\<close>

theorem RLE_round_trip_counterexample:
  "RLEColumn_decode (RLEColumn_encode (replicate (2 ^ 32) (7 :: 8 word)) RLEColumn_new) \<noteq>
     Some (replicate (2 ^ 32) 7)"
proof -
  have "(2::nat) ^ 32 = Suc (2 ^ 32 - 1)"
    by simp
  then have "RLEColumn_encode (replicate (2 ^ 32) (7 :: 8 word)) RLEColumn_new =
      RLEColumn_new\<lparr>m_values := [7], m_lengths := [of_nat (2 ^ 32)]\<rparr>"
    using RLE_encode_replicate [of "2 ^ 32 - 1" "7 :: 8 word" RLEColumn_new] by metis
  moreover have "(of_nat (2 ^ 32) :: uint32_t) = 0"
    by simp
  ultimately have "RLEColumn_decode
      (RLEColumn_encode (replicate (2 ^ 32) (7 :: 8 word)) RLEColumn_new) = Some []"
    by (simp add: RLEColumn_decode_def RLEColumn_new_def RLE_decode_run_from_0)
  moreover have "replicate (2 ^ 32) (7 :: 8 word) \<noteq> []"
    by (simp only: replicate_empty) simp
  ultimately show ?thesis
    by (simp only: option.inject) metis
qed

subsection \<open>C2\<close>

text \<open>
  C2, dictionary round trip. For every finite sequence \<open>S\<close> (the empty one included) with
  at most \<open>2 ^ 32\<close> distinct values, decoding the column that
  \<open>DictionaryColumn::encode(S)\<close> produces raises no error and returns exactly \<open>S\<close>.
\<close>

theorem Dictionary_round_trip_bounded:
  assumes "card (set S) \<le> 2 ^ 32"
    and "S = [] \<Longrightarrow> c = DictionaryColumn_new"
  shows "DictionaryColumn_decode (DictionaryColumn_encode S c) = Inr S"
proof -
  have len: "length (first_seen S) \<le> 2 ^ 32"
    using assms(1) by (simp add: length_remdups_card_conv)
  have "first_seen S ! unat (of_nat (std_find (first_seen S) x) :: uint32_t) = x"
    if "x \<in> set S" for x
  proof -
    have "std_find (first_seen S) x < length (first_seen S)"
      using that by (intro std_find_less) simp
    then have "std_find (first_seen S) x < 2 ^ 32"
      using len by linarith
    then have "unat (of_nat (std_find (first_seen S) x) :: uint32_t) = std_find (first_seen S) x"
      by (simp add: unat_of_nat)
    then show ?thesis
      using that nth_std_find [of x "first_seen S"] by simp
  qed
  then have "map (\<lambda>x. first_seen S ! unat (of_nat (std_find (first_seen S) x) :: uint32_t)) S = S"
    by (simp add: map_idI)
  then show ?thesis
    by (simp add: Dict_decode_encode [OF assms(2)])
qed

text \<open>Scenario 4 of the specification: \<open>[3, 1, 3, 2, 1]\<close> is restored.\<close>

theorem Dictionary_round_trip_witness:
  "DictionaryColumn_decode (DictionaryColumn_encode [3, 1, 3, 2, 1 :: 32 word] DictionaryColumn_new) =
     Inr [3, 1, 3, 2, 1]"
proof -
  have "card (set [3, 1, 3, 2, 1 :: 32 word]) \<le> length [3, 1, 3, 2, 1 :: 32 word]"
    by (rule card_length)
  then have "card (set [3, 1, 3, 2, 1 :: 32 word]) \<le> 2 ^ 32"
    by simp
  then show ?thesis
    by (rule Dictionary_round_trip_bounded) simp
qed

text \<open>
  Without the bound the round trip fails. In the sequence 0, 1, ..., \<open>2 ^ 32\<close> of 64-bit
  values every value is new; the last one sits at position \<open>2 ^ 32\<close>, which is stored
  as the index 0, and decodes to the first value.
\<close>

theorem Dictionary_round_trip_counterexample:
  "DictionaryColumn_decode
     (DictionaryColumn_encode (map of_nat [0..<Suc (2 ^ 32)] :: 64 word list) DictionaryColumn_new) \<noteq>
   Inr (map of_nat [0..<Suc (2 ^ 32)])"
proof -
  define n :: nat where "n = 2 ^ 32"
  define S :: "64 word list" where "S = map of_nat [0..<Suc n]"
  have len: "length S = Suc n"
    by (simp add: S_def)
  have nth: "S ! i = of_nat i" if "i < Suc n" for i
    using that unfolding S_def by (simp only: nth_map length_upt diff_zero nth_upt add_0)
  have "inj_on (of_nat :: nat \<Rightarrow> 64 word) (set [0..<Suc n])"
  proof (rule inj_onI)
    fix a b
    assume "a \<in> set [0..<Suc n]" "b \<in> set [0..<Suc n]"
    then have "a < 2 ^ 64" "b < 2 ^ 64"
      by (simp_all add: n_def)
    moreover assume "(of_nat a :: 64 word) = of_nat b"
    then have "unat (of_nat a :: 64 word) = unat (of_nat b :: 64 word)"
      by simp
    ultimately show "a = b"
      by (simp add: unat_of_nat)
  qed
  then have dist: "distinct S"
    unfolding S_def by (simp only: distinct_map distinct_upt simp_thms)
  then have fs: "first_seen S = S"
    by (simp add: distinct_remdups_id)
  have "S \<noteq> []"
    using len by auto
  have last: "last S = of_nat n"
    using \<open>S \<noteq> []\<close> len nth [of n] by (simp add: last_conv_nth)
  have "std_find S (last S) = n"
    using std_find_nth_distinct [OF dist, of n] len nth [of n] last by simp
  then have "unat (of_nat (std_find S (last S)) :: uint32_t) = 0"
    by (simp add: n_def)
  then have "S ! unat (of_nat (std_find S (last S)) :: uint32_t) = 0"
    using nth [of 0] by simp
  moreover have "last S \<noteq> 0"
  proof
    assume "last S = 0"
    then have "unat (of_nat n :: 64 word) = 0"
      using last by simp
    then show False
      by (simp add: n_def unat_of_nat)
  qed
  ultimately have "last (map (\<lambda>x. S ! unat (of_nat (std_find S x) :: uint32_t)) S) \<noteq> last S"
    using \<open>S \<noteq> []\<close> by (simp add: last_map)
  then have "map (\<lambda>x. S ! unat (of_nat (std_find S x) :: uint32_t)) S \<noteq> S"
    by auto
  then have "DictionaryColumn_decode (DictionaryColumn_encode S DictionaryColumn_new) \<noteq> Inr S"
    using Dict_decode_encode [of S DictionaryColumn_new] fs by simp
  then show ?thesis
    unfolding S_def n_def .
qed

subsection \<open>C3\<close>

text \<open>
  C3, corruption detection. For every DictionaryColumn whose indices contain an entry
  greater than or equal to the dictionary length, \<open>decode\<close> fails with
  \<open>std::out_of_range\<close>. The check is made at each lookup, before the dictionary is read.
  The exception carries the fixed message of the source and nothing else: it does not
  name the index.
\<close>

theorem Dictionary_decode_out_of_range:
  assumes "\<exists>i \<in> set (m_indices c). length (m_dictionary c) \<le> unat i"
  shows "DictionaryColumn_decode c = Inl (out_of_range ''Dictionary index out of range'')"
  using assms by (simp only: DictionaryColumn_decode_def Dict_decode_loop_invalid)

text \<open>Scenario 6 of the specification: the indices \<open>[0, 5]\<close> on a dictionary of length 2.\<close>

theorem Dictionary_decode_out_of_range_witness:
  "DictionaryColumn_decode \<lparr>m_dictionary = [10, 20 :: 32 word], m_indices = [0, 5]\<rparr> =
     Inl (out_of_range ''Dictionary index out of range'')"
  by (rule Dictionary_decode_out_of_range) simp

text \<open>
  The error does not identify the index: the offending index 5 and the offending index 7
  raise the same exception, whose message mentions neither.
\<close>

theorem Dictionary_decode_error_counterexample:
  "DictionaryColumn_decode \<lparr>m_dictionary = [10, 20 :: 32 word], m_indices = [0, 5]\<rparr> =
     DictionaryColumn_decode \<lparr>m_dictionary = [10, 20 :: 32 word], m_indices = [0, 7]\<rparr> \<and>
   DictionaryColumn_decode \<lparr>m_dictionary = [10, 20 :: 32 word], m_indices = [0, 5]\<rparr> =
     Inl (out_of_range ''Dictionary index out of range'')"
  by (simp add: DictionaryColumn_decode_def)

subsection \<open>C4\<close>

text \<open>
  C4, dictionary contents. For every finite sequence \<open>S\<close>, after
  \<open>DictionaryColumn::encode(S)\<close> the dictionary is exactly the distinct values of \<open>S\<close> in
  the order in which they first appear in \<open>S\<close>: it is \<open>S\<close> with every repeated occurrence
  removed, its entries are pairwise distinct, they are the values of \<open>S\<close>, and an entry
  that comes earlier in the dictionary has its first occurrence earlier in \<open>S\<close>
  (\<open>std_find S v\<close> is the position of the first occurrence of \<open>v\<close> in \<open>S\<close>).
\<close>

theorem Dictionary_first_occurrence_order:
  assumes "S = [] \<Longrightarrow> c = DictionaryColumn_new"
  shows "m_dictionary (DictionaryColumn_encode S c) = rev (remdups (rev S)) \<and>
    distinct (m_dictionary (DictionaryColumn_encode S c)) \<and>
    set (m_dictionary (DictionaryColumn_encode S c)) = set S \<and>
    (\<forall>i j. i < j \<and> j < length (m_dictionary (DictionaryColumn_encode S c)) \<longrightarrow>
       std_find S (m_dictionary (DictionaryColumn_encode S c) ! i) <
       std_find S (m_dictionary (DictionaryColumn_encode S c) ! j))"
proof -
  have "m_dictionary (DictionaryColumn_encode S c) = first_seen S"
    by (simp add: Dict_encode_first_seen [OF assms])
  then show ?thesis
    using first_seen_order [of S] by simp
qed

text \<open>Scenario 4 of the specification: the dictionary of \<open>[3, 1, 3, 2, 1]\<close>.\<close>

theorem Dictionary_first_occurrence_order_witness:
  "m_dictionary (DictionaryColumn_encode [3, 1, 3, 2, 1 :: 32 word] DictionaryColumn_new) = [3, 1, 2]"
  using Dictionary_first_occurrence_order [of "[3, 1, 3, 2, 1 :: 32 word]" DictionaryColumn_new]
  by simp

subsection \<open>C5\<close>

text \<open>
  C5, dictionary index validity. For every finite sequence \<open>S\<close>, after
  \<open>DictionaryColumn::encode(S)\<close> every entry of the indices is a valid position into the
  dictionary, that is, it lies in the half-open range from 0 to the length of the
  dictionary, and the indices are as many as the elements of \<open>S\<close>.
\<close>

theorem Dictionary_indices_valid:
  assumes "S = [] \<Longrightarrow> c = DictionaryColumn_new"
  shows "(\<forall>i \<in> set (m_indices (DictionaryColumn_encode S c)).
            unat i < length (m_dictionary (DictionaryColumn_encode S c))) \<and>
    length (m_indices (DictionaryColumn_encode S c)) = length S"
proof -
  have "unat (of_nat (std_find (first_seen S) x) :: uint32_t) < length (first_seen S)"
    if "x \<in> set S" for x
    using that std_find_less [of x "first_seen S"]
      unat_of_nat_32_le [of "std_find (first_seen S) x"] by simp
  then show ?thesis
    by (simp add: Dict_encode_first_seen [OF assms])
qed

text \<open>Scenario 4 of the specification: the fourth index of \<open>[3, 1, 3, 2, 1]\<close>.\<close>

theorem Dictionary_indices_valid_witness:
  "unat (m_indices (DictionaryColumn_encode [3, 1, 3, 2, 1 :: 32 word] DictionaryColumn_new) ! 3) <
     length (m_dictionary (DictionaryColumn_encode [3, 1, 3, 2, 1 :: 32 word] DictionaryColumn_new)) \<and>
   length (m_indices (DictionaryColumn_encode [3, 1, 3, 2, 1 :: 32 word] DictionaryColumn_new)) = 5"
proof -
  let ?e = "DictionaryColumn_encode [3, 1, 3, 2, 1 :: 32 word] DictionaryColumn_new"
  have valid: "(\<forall>i \<in> set (m_indices ?e). unat i < length (m_dictionary ?e)) \<and>
      length (m_indices ?e) = length [3, 1, 3, 2, 1 :: 32 word]"
    by (rule Dictionary_indices_valid) simp
  then have len: "length (m_indices ?e) = 5"
    by simp
  then have "m_indices ?e ! 3 \<in> set (m_indices ?e)"
    by simp
  with valid len show ?thesis
    by blast
qed

subsection \<open>C6\<close>

text \<open>
  C6, RLE maximality. For every non-empty finite sequence \<open>S\<close>, after
  \<open>RLEColumn::encode(S)\<close> no two adjacent entries of the values are equal.
\<close>

theorem RLE_values_adjacent_distinct:
  assumes "S \<noteq> []"
  shows "\<forall>i. Suc i < length (m_values (RLEColumn_encode S c)) \<longrightarrow>
           m_values (RLEColumn_encode S c) ! i \<noteq> m_values (RLEColumn_encode S c) ! Suc i"
proof -
  from assms obtain d ds where S: "S = d # ds"
    by (cases S) auto
  let ?c = "c\<lparr>m_values := [], m_lengths := []\<rparr>"
  obtain cur' len' c' where loop: "RLEColumn_encode_loop ds d 1 ?c = (cur', len', c')"
    by (cases "RLEColumn_encode_loop ds d 1 ?c") auto
  have "distinct_adj (m_values ?c @ [d])"
    by simp
  then have "distinct_adj (m_values c' @ [cur'])"
    using loop by (rule RLE_encode_loop_distinct_adj)
  moreover have "m_values (RLEColumn_encode S c) = m_values c' @ [cur']"
    by (simp add: S RLEColumn_encode_def loop)
  ultimately show ?thesis
    by (simp add: distinct_adj_conv_nth)
qed

text \<open>Scenario 1 of the specification: the values of \<open>[5, 5, 5, 2, 2, 9]\<close>.\<close>

theorem RLE_values_adjacent_distinct_witness:
  "m_values (RLEColumn_encode [5, 5, 5, 2, 2, 9 :: 32 word] RLEColumn_new) = [5, 2, 9] \<and>
   m_values (RLEColumn_encode [5, 5, 5, 2, 2, 9 :: 32 word] RLEColumn_new) ! 0 \<noteq>
   m_values (RLEColumn_encode [5, 5, 5, 2, 2, 9 :: 32 word] RLEColumn_new) ! Suc 0"
proof -
  have "[5, 5, 5, 2, 2, 9 :: 32 word] \<noteq> []"
    by simp
  from RLE_values_adjacent_distinct [OF this, of RLEColumn_new, THEN spec, of 0]
  show ?thesis
    by (simp add: RLEColumn_encode_def RLEColumn_new_def)
qed

subsection \<open>C7\<close>

text \<open>
  C7, RLE length conservation. For every finite sequence \<open>S\<close> in which no value is
  repeated \<open>2 ^ 32\<close> or more times in a row, and whose length is a \<open>size_t\<close>, after
  \<open>RLEColumn::encode(S)\<close> the value of \<open>decoded_size()\<close>, the sum of all run lengths,
  equals the length of \<open>S\<close>.
\<close>

theorem RLE_decoded_size_short_runs:
  assumes "\<forall>as x bs. S \<noteq> as @ replicate (2 ^ 32) x @ bs"
    and "length S < 2 ^ 64"
    and "S = [] \<Longrightarrow> c = RLEColumn_new"
  shows "unat (RLEColumn_decoded_size (RLEColumn_encode S c)) = length S"
proof (cases S)
  case Nil
  with assms(3) show ?thesis
    by (simp add: RLEColumn_encode_def RLEColumn_decoded_size_def RLEColumn_new_def)
next
  case (Cons d ds)
  from RLE_encode_Cons_runs [OF assms(1) [unfolded Cons], of c]
  obtain cur' k' c' where
    enc: "RLEColumn_encode (d # ds) c =
       c'\<lparr>m_values := m_values c' @ [cur'], m_lengths := m_lengths c' @ [of_nat k']\<rparr>"
    and k': "k' < 2 ^ 32"
    and len: "length (m_values c') = length (m_lengths c')"
    and ex: "expand_runs (m_values c') (m_lengths c') @ replicate k' cur' = d # ds"
    by auto
  have "length (expand_runs (m_values c') (m_lengths c') @ replicate k' cur') = length S"
    using ex Cons by simp
  then have total: "sum_list (map unat (m_lengths c')) + k' = length S"
    using length_expand_runs [OF len] by simp
  have "RLEColumn_decoded_size (RLEColumn_encode S c) =
      of_nat (sum_list (map unat (m_lengths c' @ [of_nat k'])))"
    by (simp add: Cons enc RLEColumn_decoded_size_def decoded_size_sum)
  also have "\<dots> = of_nat (length S)"
    using total unat_of_nat_32 [OF k'] by simp
  finally show ?thesis
    using assms(2) by (simp add: unat_of_nat)
qed

text \<open>Scenario 1 of the specification: the six elements of \<open>[5, 5, 5, 2, 2, 9]\<close>.\<close>

theorem RLE_decoded_size_witness:
  "unat (RLEColumn_decoded_size (RLEColumn_encode [5, 5, 5, 2, 2, 9 :: 32 word] RLEColumn_new)) = 6"
proof -
  have "\<forall>as x bs. [5, 5, 5, 2, 2, 9 :: 32 word] \<noteq> as @ replicate (2 ^ 32) x @ bs"
    by (rule short_list_no_run) simp
  from RLE_decoded_size_short_runs [OF this, of RLEColumn_new] show ?thesis
    by simp
qed

text \<open>
  Without the bound the sum is not the length: for the buffer of \<open>2 ^ 32\<close> equal bytes
  \<open>decoded_size()\<close> is 0.
\<close>

theorem RLE_decoded_size_counterexample:
  "unat (RLEColumn_decoded_size
       (RLEColumn_encode (replicate (2 ^ 32) (7 :: 8 word)) RLEColumn_new)) \<noteq>
     length (replicate (2 ^ 32) (7 :: 8 word))"
proof -
  have "(2::nat) ^ 32 = Suc (2 ^ 32 - 1)"
    by simp
  then have "RLEColumn_encode (replicate (2 ^ 32) (7 :: 8 word)) RLEColumn_new =
      RLEColumn_new\<lparr>m_values := [7], m_lengths := [of_nat (2 ^ 32)]\<rparr>"
    using RLE_encode_replicate [of "2 ^ 32 - 1" "7 :: 8 word" RLEColumn_new] by metis
  moreover have "(of_nat (2 ^ 32) :: uint32_t) = 0"
    by simp
  ultimately have "RLEColumn_decoded_size
      (RLEColumn_encode (replicate (2 ^ 32) (7 :: 8 word)) RLEColumn_new) = 0"
    by (simp add: RLEColumn_decoded_size_def RLEColumn_new_def)
  then show ?thesis
    by simp
qed

subsection \<open>C8\<close>

text \<open>
  C8, empty input. Encoding an empty sequence produces an empty encoded column: for RLE
  the values and the lengths are both empty, for the dictionary codec the dictionary and
  the indices are both empty. The column is the one the constructor made.
\<close>

theorem Empty_input_encode:
  "RLEColumn_encode [] RLEColumn_new = \<lparr>m_values = [], m_lengths = []\<rparr> \<and>
   DictionaryColumn_encode [] DictionaryColumn_new = \<lparr>m_dictionary = [], m_indices = []\<rparr>"
  by (simp add: RLEColumn_encode_def RLEColumn_new_def
      DictionaryColumn_encode_def DictionaryColumn_new_def)

subsection \<open>C9\<close>

text \<open>
  C9, run-length positivity. For every finite sequence \<open>S\<close> in which no maximal run of
  equal consecutive elements has a length that is a positive multiple of \<open>2 ^ 32\<close>,
  after \<open>RLEColumn::encode(S)\<close> every entry of the lengths is at least 1. The hypothesis
  reads: wherever \<open>S\<close> holds \<open>m * 2 ^ 32\<close> copies of a value in a row, with \<open>m\<close> positive,
  the same value comes right before them or right after them.
\<close>

theorem RLE_lengths_positive_no_wrapped_run:
  assumes "\<forall>as x bs m. 0 < m \<longrightarrow> S = as @ replicate (m * 2 ^ 32) x @ bs \<longrightarrow>
      (as \<noteq> [] \<and> last as = x) \<or> (bs \<noteq> [] \<and> hd bs = x)"
    and "S = [] \<Longrightarrow> c = RLEColumn_new"
  shows "\<forall>l \<in> set (m_lengths (RLEColumn_encode S c)). 1 \<le> unat l"
proof (cases S)
  case Nil
  with assms(2) show ?thesis
    by (simp add: RLEColumn_encode_def RLEColumn_new_def)
next
  case (Cons d ds)
  let ?c = "c\<lparr>m_values := [], m_lengths := []\<rparr>"
  obtain cur' len' c' where loop: "RLEColumn_encode_loop ds d 1 ?c = (cur', len', c')"
    by (cases "RLEColumn_encode_loop ds d 1 ?c") auto
  have H: "\<forall>as' x bs m. 0 < m \<longrightarrow>
      [] @ replicate 1 d @ ds = as' @ replicate (m * 2 ^ 32) x @ bs \<longrightarrow>
      (as' \<noteq> [] \<and> last as' = x) \<or> (bs \<noteq> [] \<and> hd bs = x)"
    using assms(1) unfolding Cons by simp
  have "RLEColumn_encode_loop ds d (of_nat 1) ?c = (cur', len', c')"
    using loop by simp
  from RLE_encode_loop_nonzero [OF H _ _ _ this]
  have nz: "len' \<noteq> 0 \<and> (\<forall>l \<in> set (m_lengths c'). l \<noteq> 0)"
    by simp
  have "1 \<le> unat l" if "l \<noteq> 0" for l :: uint32_t
    using that by (simp add: Suc_le_eq unat_gt_0)
  then show ?thesis
    using nz by (simp add: Cons RLEColumn_encode_def loop)
qed

text \<open>
  The buffer of \<open>2 ^ 32 + 2\<close> sevens and one nine: its first run is longer than
  \<open>2 ^ 32\<close>, and its stored length is positive.
\<close>

theorem RLE_lengths_positive_witness:
  "1 \<le> unat (m_lengths (RLEColumn_encode
       (replicate (2 ^ 32 + 2) (7 :: 8 word) @ [9]) RLEColumn_new) ! 0)"
proof -
  let ?S = "replicate (2 ^ 32 + 2) (7 :: 8 word) @ [9]"
  have "\<forall>as x bs m. 0 < m \<longrightarrow> ?S = as @ replicate (m * 2 ^ 32) x @ bs \<longrightarrow>
      (as \<noteq> [] \<and> last as = x) \<or> (bs \<noteq> [] \<and> hd bs = x)"
    by (rule long_run_not_wrapped) simp_all
  then have pos: "\<forall>l \<in> set (m_lengths (RLEColumn_encode ?S RLEColumn_new)). 1 \<le> unat l"
    by (rule RLE_lengths_positive_no_wrapped_run) simp
  have "(2::nat) ^ 32 + 2 = Suc (2 ^ 32 + 1)"
    by simp
  then have "RLEColumn_encode ?S RLEColumn_new =
      RLEColumn_new\<lparr>m_values := [7, 9], m_lengths := [of_nat (2 ^ 32 + 2), 1]\<rparr>"
    using RLE_encode_two_runs [of "7 :: 8 word" 9 "2 ^ 32 + 1" RLEColumn_new] by simp
  then have "m_lengths (RLEColumn_encode ?S RLEColumn_new) ! 0 \<in>
      set (m_lengths (RLEColumn_encode ?S RLEColumn_new))"
    by simp
  with pos show ?thesis
    by blast
qed

text \<open>
  Without the hypothesis a stored length can be 0: the buffer of \<open>2 ^ 32\<close> equal bytes
  is encoded as one run of length 0.
\<close>

theorem RLE_lengths_positive_counterexample:
  "m_lengths (RLEColumn_encode (replicate (2 ^ 32) (7 :: 8 word)) RLEColumn_new) = [0]"
proof -
  have "(2::nat) ^ 32 = Suc (2 ^ 32 - 1)"
    by simp
  then have "RLEColumn_encode (replicate (2 ^ 32) (7 :: 8 word)) RLEColumn_new =
      RLEColumn_new\<lparr>m_values := [7], m_lengths := [of_nat (2 ^ 32)]\<rparr>"
    using RLE_encode_replicate [of "2 ^ 32 - 1" "7 :: 8 word" RLEColumn_new] by metis
  moreover have "(of_nat (2 ^ 32) :: uint32_t) = 0"
    by simp
  ultimately show ?thesis
    by simp
qed

subsection \<open>C10\<close>

text \<open>
  C10, encoding an empty sequence into a column that holds data. For every column, RLE or
  dictionary, \<open>encode\<close> with \<open>size == 0\<close> returns before the \<open>clear()\<close> calls and leaves
  the stored sequences exactly as they were.
\<close>

theorem Empty_input_keeps_column:
  "RLEColumn_encode [] c = c \<and> DictionaryColumn_encode [] d = d"
  by (simp add: RLEColumn_encode_def DictionaryColumn_encode_def)

end
